theory Spec2Isabelle
  imports Main "HOL-Library.AList"
begin

section \<open>Data model of \<open>rmm/core2.py\<close>\<close>

text \<open>
  Python strings are modelled as \<^typ>\<open>string\<close> (lists of 8-bit characters, so the
  Latin-1 range of code points), Python's unbounded integers as \<^typ>\<open>int\<close>, an
  \<open>Optional[t]\<close> attribute as an \<open>option\<close>. Exceptions are values of \<open>error\<close>.
\<close>

datatype error = IndexError | ValueError | TypeError | csv_Error
  | RuntimeError string | NetworkXUnfeasible string

text \<open>Class \<open>Mod\<close>: the attributes set by \<open>Mod.__init__\<close>, in its order.\<close>

record Mod =
  packageid :: string
  before :: "string list option"
  after :: "string list option"
  incompatible :: "string list option"
  path :: "string option"
  author :: "string option"
  name :: "string option"
  ignored :: bool
  steamid :: "int option"
  versions :: "string list option"
  repo_url :: "string option"
  workshop_managed :: "bool option"

text \<open>\<open>Mod(packageid, steamid=..., repo_url=...)\<close>: every other argument at its default.\<close>

definition mk_Mod :: "string \<Rightarrow> int option \<Rightarrow> string option \<Rightarrow> Mod" where
  "mk_Mod p s r =
     \<lparr>packageid = p, before = None, after = None, incompatible = None, path = None,
      author = None, name = None, ignored = False, steamid = s, versions = None,
      repo_url = r, workshop_managed = None\<rparr>"

text \<open>\<open>ModStub.__init__(steamid)\<close> calls \<open>super().__init__("", steamid=steamid)\<close>.\<close>

definition ModStub :: "int \<Rightarrow> Mod" where
  "ModStub s = mk_Mod [] (Some s) None"

subsection \<open>\<open>str\<close> of an integer\<close>

definition digit_char :: "nat \<Rightarrow> char" where
  "digit_char d = char_of (48 + d)"

fun str_nat :: "nat \<Rightarrow> string" where
  "str_nat n = (if n < 10 then [digit_char n] else str_nat (n div 10) @ [digit_char (n mod 10)])"

declare str_nat.simps [simp del]

definition str_int :: "int \<Rightarrow> string" where
  "str_int i = (if i < 0 then CHR ''-'' # str_nat (nat (- i)) else str_nat (nat i))"

text \<open>\<open>str(x)\<close> of an \<open>Optional[int]\<close>: \<open>str(None)\<close> is the text \<open>None\<close>.\<close>

definition str_opt_int :: "int option \<Rightarrow> string" where
  "str_opt_int x = (case x of None \<Rightarrow> ''None'' | Some i \<Rightarrow> str_int i)"

subsection \<open>\<open>str.strip\<close> and \<open>int\<close> of a string\<close>

text \<open>
  \<open>str.strip()\<close> removes the characters for which \<open>str.isspace\<close> holds from both ends.
  \<open>int(s)\<close> in base 10 accepts surrounding whitespace, one sign, and decimal digits with
  single underscores between digits; anything else raises \<open>ValueError\<close>. The whitespace
  \<open>int\<close> skips does not include the separators \<open>0x1C\<close> to \<open>0x1F\<close>, which \<open>str.isspace\<close>
  accepts. (CPython before 3.11: no limit on the number of digits.)
\<close>

definition isspace :: "char \<Rightarrow> bool" where
  "isspace c = (of_char c \<in> {9, 10, 11, 12, 13, 28, 29, 30, 31, 32, 133, 160 :: nat})"

definition strip :: "string \<Rightarrow> string" where
  "strip s = rev (dropWhile isspace (rev (dropWhile isspace s)))"

definition int_isspace :: "char \<Rightarrow> bool" where
  "int_isspace c = (of_char c \<in> {9, 10, 11, 12, 13, 32, 133, 160 :: nat})"

definition isdigit :: "char \<Rightarrow> bool" where
  "isdigit c = (48 \<le> (of_char c :: nat) \<and> (of_char c :: nat) \<le> 57)"

definition digit_val :: "char \<Rightarrow> nat" where
  "digit_val c = of_char c - 48"

fun digits_value :: "nat \<Rightarrow> bool \<Rightarrow> string \<Rightarrow> nat option" where
  "digits_value acc prev [] = (if prev then Some acc else None)"
| "digits_value acc prev (c # cs) =
     (if isdigit c then digits_value (acc * 10 + digit_val c) True cs
      else if c = CHR ''_'' \<and> prev then digits_value acc False cs
      else None)"

definition int_of_str :: "string \<Rightarrow> error + int" where
  "int_of_str s =
     (let t = rev (dropWhile int_isspace (rev (dropWhile int_isspace s)));
          neg = (t \<noteq> [] \<and> hd t = CHR ''-'');
          ds = (if t \<noteq> [] \<and> (hd t = CHR ''-'' \<or> hd t = CHR ''+'') then tl t else t)
      in case digits_value 0 False ds of
           None \<Rightarrow> Inl ValueError
         | Some n \<Rightarrow> Inr (if neg then - int n else int n))"

subsection \<open>\<open>Mod.__eq__\<close>, \<open>Mod.__str__\<close>, \<open>ModStub.__str__\<close>\<close>

text \<open>
  The right operand of \<open>==\<close> is any Python object: a \<open>Mod\<close> (a \<open>ModStub\<close> is one), a
  \<open>str\<close>, or something else. \<open>__eq__\<close> returns a \<open>bool\<close> or \<open>NotImplemented\<close>
  (here \<open>None\<close>).
\<close>

datatype pyobj = PyMod Mod | PyStr string | PyInt int | PyNone

fun Mod_eq :: "Mod \<Rightarrow> pyobj \<Rightarrow> bool option" where
  "Mod_eq self (PyMod other) = Some (packageid self = packageid other)"
| "Mod_eq self (PyStr other) = Some (packageid self = other)"
| "Mod_eq self _ = None"

text \<open>
  \<open>self == other\<close>: when \<open>__eq__\<close> returns \<open>NotImplemented\<close> the reflected method of an
  \<open>int\<close> or of \<open>None\<close> does so too, and Python falls back to identity, which is false
  for an object of another type.
\<close>

definition Mod_equals :: "Mod \<Rightarrow> pyobj \<Rightarrow> bool" where
  "Mod_equals self other = (case Mod_eq self other of Some b \<Rightarrow> b | None \<Rightarrow> False)"

definition Mod_str :: "Mod \<Rightarrow> string" where
  "Mod_str self = ''<Mod: '' @ [CHR 0x27] @ packageid self @ [CHR 0x27] @ ''>''"

definition ModStub_str :: "Mod \<Rightarrow> string" where
  "ModStub_str self = ''<ModStub: '' @ [CHR 0x27] @ str_opt_int (steamid self) @ [CHR 0x27] @ ''>''"

section \<open>\<open>ModList\<close>\<close>

text \<open>
  \<open>ModList.insert(i, x)\<close> is \<open>self.data[i] = x\<close>: item assignment on the underlying list.
  A negative index counts from the end; an index outside \<open>-len .. len-1\<close> raises
  \<open>IndexError\<close>. \<open>append\<close> is inherited from \<open>MutableSequence\<close>:
  \<open>self.insert(len(self), value)\<close>.
\<close>

definition list_setitem :: "'a list \<Rightarrow> int \<Rightarrow> 'a \<Rightarrow> error + 'a list" where
  "list_setitem xs i x =
     (if 0 \<le> i \<and> i < int (length xs) then Inr (xs[nat i := x])
      else if i < 0 \<and> - int (length xs) \<le> i then Inr (xs[nat (int (length xs) + i) := x])
      else Inl IndexError)"

definition insert_ModList :: "Mod list \<Rightarrow> int \<Rightarrow> Mod \<Rightarrow> error + Mod list" where
  "insert_ModList xs i x = list_setitem xs i x"

definition append_ModList :: "Mod list \<Rightarrow> Mod \<Rightarrow> error + Mod list" where
  "append_ModList xs x = insert_ModList xs (int (length xs)) x"

section \<open>String helpers of the list formats\<close>

text \<open>Truth values: \<open>None\<close> is false, a string is true when it is not empty.\<close>

definition truthy_None :: bool where
  "truthy_None = False"

definition truthy_str :: "string \<Rightarrow> bool" where
  "truthy_str s = (s \<noteq> [])"

text \<open>
  \<open>s.split(sep)\<close> for a non-empty separator: the leftmost occurrences of \<open>sep\<close>, not
  overlapping, cut \<open>s\<close>; the result always has at least one element. (The separators of
  the source are the constants \<open>"::"\<close> and \<open>"\n"\<close>.)
\<close>

fun split_from :: "string \<Rightarrow> string \<Rightarrow> string \<Rightarrow> string list" where
  "split_from sep cur [] = [cur]"
| "split_from sep cur (c # cs) =
     (if sep \<noteq> [] \<and> take (length sep) (c # cs) = sep
      then cur # split_from sep [] (drop (length sep) (c # cs))
      else split_from sep (cur @ [c]) cs)"

definition str_split :: "string \<Rightarrow> string \<Rightarrow> string list" where
  "str_split s sep = split_from sep [] s"

text \<open>\<open>sep.join(items)\<close>: an item that is \<open>None\<close> raises \<open>TypeError\<close>.\<close>

fun str_join :: "string \<Rightarrow> string option list \<Rightarrow> error + string" where
  "str_join sep [] = Inr []"
| "str_join sep (None # xs) = Inl TypeError"
| "str_join sep [Some s] = Inr s"
| "str_join sep (Some s # x # xs) =
     (case str_join sep (x # xs) of Inl e \<Rightarrow> Inl e | Inr r \<Rightarrow> Inr (s @ sep @ r))"

text \<open>\<open>xs[i]\<close> for an index \<open>i \<ge> 0\<close>.\<close>

definition getitem :: "'a list \<Rightarrow> nat \<Rightarrow> error + 'a" where
  "getitem xs i = (if i < length xs then Inr (xs ! i) else Inl IndexError)"

section \<open>\<open>ModListV2Format\<close>\<close>

definition SEPERATOR :: string where
  "SEPERATOR = ''::''"

definition PACKAGE_ID :: nat where
  "PACKAGE_ID = 0"

definition STEAM_ID :: nat where
  "STEAM_ID = 1"

definition REPO_URL :: nat where
  "REPO_URL = 2"

text \<open>
  \<open>ModListV2Format.format\<close>. The conditions \<open>if not None\<close> are evaluated as written: they
  test the constant \<open>None\<close>, not the attribute.
\<close>

definition V2_format :: "Mod \<Rightarrow> error + string" where
  "V2_format m =
     str_join SEPERATOR
       [Some (packageid m),
        Some (if \<not> truthy_None then str_opt_int (steamid m) else []),
        (if \<not> truthy_None then repo_url m else Some [])]"


text \<open>
  The body of the \<open>try\<close> in \<open>ModListV2Format.parse\<close>, for one \<open>parsed\<close> list: \<open>None\<close> is the
  \<open>continue\<close> on an empty package id. The arguments of \<open>Mod(...)\<close> are evaluated left to
  right.
\<close>

definition V2_try :: "string list \<Rightarrow> error + Mod option" where
  "V2_try parsed =
     (case getitem parsed PACKAGE_ID of
        Inl e \<Rightarrow> Inl e
      | Inr p \<Rightarrow>
          if \<not> truthy_str p then Inr None
          else (case getitem parsed STEAM_ID of
                  Inl e \<Rightarrow> Inl e
                | Inr st \<Rightarrow>
                    (case int_of_str st of
                       Inl e \<Rightarrow> Inl e
                     | Inr sid \<Rightarrow>
                         if \<not> truthy_str [] then
                           (case getitem parsed REPO_URL of
                              Inl e \<Rightarrow> Inl e
                            | Inr r \<Rightarrow> Inr (Some (mk_Mod p (Some sid) (Some r))))
                         else Inr (Some (mk_Mod p (Some sid) None)))))"

text \<open>One turn of the loop: \<open>except ValueError: continue\<close>; any other exception leaves.\<close>

definition V2_parse_line :: "string \<Rightarrow> error + Mod option" where
  "V2_parse_line line =
     (case V2_try (str_split line SEPERATOR) of
        Inl e \<Rightarrow> (if e = ValueError then Inr None else Inl e)
      | Inr r \<Rightarrow> Inr r)"

text \<open>\<open>for line in text\<close>, for the items \<open>text\<close> yields when iterated.\<close>

fun V2_parse_lines :: "string list \<Rightarrow> Mod list \<times> error option" where
  "V2_parse_lines [] = ([], None)"
| "V2_parse_lines (l # ls) =
     (case V2_parse_line l of
        Inl e \<Rightarrow> ([], Some e)
      | Inr None \<Rightarrow> V2_parse_lines ls
      | Inr (Some m) \<Rightarrow> (case V2_parse_lines ls of (ms, e) \<Rightarrow> (m # ms, e)))"

text \<open>
  \<open>ModListV2Format.parse(text)\<close> with \<open>text: str\<close> (what \<open>ModListStreamer.read\<close> passes):
  iterating a string yields its characters, each a string of length one.
\<close>

definition V2_parse :: "string \<Rightarrow> Mod list \<times> error option" where
  "V2_parse text = V2_parse_lines (map (\<lambda>c. [c]) text)"

section \<open>The \<open>csv\<close> module, default dialect\<close>

text \<open>
  \<open>ModListV3Format\<close> reads and writes through \<open>csv.reader\<close> and \<open>csv.writer\<close> with the
  default dialect \<open>excel\<close>: delimiter \<open>,\<close>, quote character \<open>"\<close>, doubled quotes, no
  escape character, minimal quoting, not strict, line terminator \<open>\r\n\<close>. The library is
  not part of the repository; the model follows CPython's \<open>_csv.c\<close> (3.10) for this
  dialect, where the states that need an escape character cannot be reached and are
  left out.
\<close>

definition delimiter :: char where
  "delimiter = CHR '',''"

definition quotechar :: char where
  "quotechar = CHR 0x22"

definition lineterminator :: string where
  "lineterminator = [CHR 0x0D, CHR 0x0A]"


subsection \<open>Writer\<close>

text \<open>
  \<open>join_append_data\<close>: a quote character is doubled; the field is quoted when it holds
  the delimiter, a quote character or a character of the line terminator.
\<close>

definition join_append_data :: "string \<Rightarrow> string" where
  "join_append_data f = concat (map (\<lambda>c. if c = quotechar then [quotechar, c] else [c]) f)"

definition quoted :: "string \<Rightarrow> bool" where
  "quoted f = (\<exists>c \<in> set f. c = delimiter \<or> c = quotechar \<or> c \<in> set lineterminator)"

definition join_append :: "string \<Rightarrow> string" where
  "join_append f =
     (if quoted f then [quotechar] @ join_append_data f @ [quotechar] else join_append_data f)"

fun join_fields :: "string list \<Rightarrow> string" where
  "join_fields [] = []"
| "join_fields [f] = join_append f"
| "join_fields (f # g # fs) = join_append f @ [delimiter] @ join_fields (g # fs)"

text \<open>
  \<open>writer.writerow(row)\<close>: \<open>None\<close> is written as the empty string; a row whose only
  field is empty is written as a pair of quotes; the line terminator ends the record.
\<close>

definition writerow :: "string option list \<Rightarrow> string" where
  "writerow row =
     (let fs = map (\<lambda>x. case x of None \<Rightarrow> [] | Some s \<Rightarrow> s) row;
          rec = join_fields fs
      in (if fs \<noteq> [] \<and> rec = [] then [quotechar, quotechar] else rec) @ lineterminator)"

subsection \<open>Reader\<close>












section \<open>\<open>ModListV3Format\<close>\<close>


text \<open>\<open>ModListV3Format.format\<close>: the row handed to the writer.\<close>

definition V3_format :: "Mod \<Rightarrow> string option list" where
  "V3_format m =
     [Some (packageid m),
      Some (if \<not> truthy_None then str_opt_int (steamid m) else []),
      (if \<not> truthy_None then repo_url m else Some [])]"

text \<open>\<open>ModListV3Format.serialize\<close>: each row written, popped from the buffer and stripped.\<close>

definition V3_serialize :: "Mod list \<Rightarrow> string list" where
  "V3_serialize mods = map (\<lambda>m. strip (writerow (V3_format m))) mods"





section \<open>\<open>ModListStreamer\<close>\<close>


section \<open>\<open>Sort.graph\<close>: the dependency graph\<close>

text \<open>
  \<open>networkx.DiGraph\<close> is library code. A graph is modelled by its nodes in the order
  they were first added and its edges in the order they were first added: networkx keeps
  nodes and adjacency in insertion-ordered dictionaries, so the successors of \<open>u\<close> are
  iterated in the order of the edges \<open>(u, _)\<close>, and adding a node or an edge a second time
  changes nothing.
\<close>

record DiGraph =
  nodes :: "string list"
  edges :: "(string \<times> string) list"

definition empty_DiGraph :: DiGraph where
  "empty_DiGraph = \<lparr>nodes = [], edges = []\<rparr>"

definition add_node :: "DiGraph \<Rightarrow> string \<Rightarrow> DiGraph" where
  "add_node g u = (if u \<in> set (nodes g) then g else g\<lparr>nodes := nodes g @ [u]\<rparr>)"

text \<open>\<open>DG.add_edge(u, v)\<close> adds the node \<open>u\<close>, then the node \<open>v\<close>, then the edge.\<close>

definition add_edge :: "DiGraph \<Rightarrow> string \<Rightarrow> string \<Rightarrow> DiGraph" where
  "add_edge g u v =
     (let g' = add_node (add_node g u) v
      in if (u, v) \<in> set (edges g') then g' else g'\<lparr>edges := edges g' @ [(u, v)]\<rparr>)"

definition ignore :: "string list" where
  "ignore = [''brrainz.harmony'', ''UnlimitedHugs.HugsLib'']"

text \<open>
  \<open>a in mods\<close> for a string \<open>a\<close>: \<open>ModList\<close> inherits \<open>Sequence.__contains__\<close>, which
  walks the sequence and compares each element with \<open>==\<close>, that is \<open>Mod.__eq__\<close>.
\<close>

fun contains :: "Mod list \<Rightarrow> string \<Rightarrow> bool" where
  "contains [] a = False"
| "contains (v # vs) a = (if Mod_equals v (PyStr a) then True else contains vs a)"

text \<open>The two inner loops of \<open>Sort.graph\<close> for one record \<open>m\<close>, and the outer loop.\<close>

definition after_step :: "Mod list \<Rightarrow> Mod \<Rightarrow> string \<Rightarrow> DiGraph \<Rightarrow> DiGraph" where
  "after_step mods m a DG =
     (if contains mods a then
        (if a \<notin> set ignore \<and> packageid m \<notin> set ignore then add_edge DG a (packageid m) else DG)
      else DG)"

definition before_step :: "Mod list \<Rightarrow> Mod \<Rightarrow> string \<Rightarrow> DiGraph \<Rightarrow> DiGraph" where
  "before_step mods m b DG =
     (if contains mods b then
        (if b \<notin> set ignore \<and> packageid m \<notin> set ignore then add_edge DG (packageid m) b else DG)
      else DG)"

text \<open>\<open>if m.after:\<close> is false for \<open>None\<close> and for the empty list.\<close>

definition truthy_list :: "'a list option \<Rightarrow> bool" where
  "truthy_list x = (case x of None \<Rightarrow> False | Some xs \<Rightarrow> xs \<noteq> [])"

definition mod_step :: "Mod list \<Rightarrow> Mod \<Rightarrow> DiGraph \<Rightarrow> DiGraph" where
  "mod_step mods m DG =
     (let DG1 = (if truthy_list (after m) then fold (after_step mods m) (the (after m)) DG else DG)
      in if truthy_list (before m) then fold (before_step mods m) (the (before m)) DG1 else DG1)"

definition build_graph :: "Mod list \<Rightarrow> DiGraph" where
  "build_graph mods = fold (mod_step mods) mods empty_DiGraph"

section \<open>\<open>networkx.topological_sort\<close>\<close>

text \<open>
  Library code, modelled from networkx (2.6 and later), where \<open>topological_sort\<close> yields
  the nodes of \<open>topological_generations\<close> one generation after the other:
  \<^verbatim>\<open>
  indegree_map = {v: d for v, d in G.in_degree() if d > 0}
  zero_indegree = [v for v, d in G.in_degree() if d == 0]
  while zero_indegree:
      this_generation = zero_indegree
      zero_indegree = []
      for node in this_generation:
          if node not in G:
              raise RuntimeError("Graph changed during iteration")
          for child in G.neighbors(node):
              try:
                  indegree_map[child] -= 1
              except KeyError as err:
                  raise RuntimeError("Graph changed during iteration") from err
              if indegree_map[child] == 0:
                  zero_indegree.append(child)
                  del indegree_map[child]
      yield this_generation
  if indegree_map:
      raise nx.NetworkXUnfeasible("Graph contains a cycle or graph changed during iteration")
  \<close>
  The exceptions carry their message and nothing else.
\<close>

definition graph_changed :: string where
  "graph_changed = ''Graph changed during iteration''"

definition cycle_or_changed :: string where
  "cycle_or_changed = ''Graph contains a cycle or graph changed during iteration''"

definition in_degree :: "DiGraph \<Rightarrow> string \<Rightarrow> int" where
  "in_degree G v = int (length (filter (\<lambda>e. snd e = v) (edges G)))"

definition neighbors :: "DiGraph \<Rightarrow> string \<Rightarrow> string list" where
  "neighbors G u = map snd (filter (\<lambda>e. fst e = u) (edges G))"

text \<open>
  The dictionary \<open>indegree_map\<close> is an association list. The loop over the children of
  one node: an entry that would be stored as 0 is deleted in the same step.
\<close>

type_synonym indegree_map = "(string \<times> int) list"

fun relax :: "string list \<Rightarrow> indegree_map \<Rightarrow> string list \<Rightarrow> error + (indegree_map \<times> string list)" where
  "relax [] im zero = Inr (im, zero)"
| "relax (child # cs) im zero =
     (case map_of im child of
        None \<Rightarrow> Inl (RuntimeError graph_changed)
      | Some d \<Rightarrow>
          if d - 1 = 0 then relax cs (AList.delete child im) (zero @ [child])
          else relax cs (AList.update child (d - 1) im) zero)"

fun generation :: "DiGraph \<Rightarrow> string list \<Rightarrow> indegree_map \<Rightarrow> string list
    \<Rightarrow> error + (indegree_map \<times> string list)" where
  "generation G [] im zero = Inr (im, zero)"
| "generation G (node # ns) im zero =
     (if node \<notin> set (nodes G) then Inl (RuntimeError graph_changed)
      else (case relax (neighbors G node) im zero of
              Inl e \<Rightarrow> Inl e
            | Inr (im', zero') \<Rightarrow> generation G ns im' zero'))"

function generations :: "DiGraph \<Rightarrow> indegree_map \<Rightarrow> string list \<Rightarrow> error + string list list" where
  "generations G im zero =
     (if zero \<noteq> [] then
        (case generation G zero im [] of
           Inl e \<Rightarrow> Inl e
         | Inr (im', zero') \<Rightarrow>
             (case generations G im' zero' of
                Inl e \<Rightarrow> Inl e
              | Inr gs \<Rightarrow> Inr (zero # gs)))
      else if im \<noteq> [] then Inl (NetworkXUnfeasible cycle_or_changed)
      else Inr [])"
  by pat_completeness auto

definition topological_generations :: "DiGraph \<Rightarrow> error + string list list" where
  "topological_generations G =
     generations G
       (filter (\<lambda>(v, d). d > 0) (map (\<lambda>v. (v, in_degree G v)) (nodes G)))
       (filter (\<lambda>v. in_degree G v = 0) (nodes G))"

definition topological_sort :: "DiGraph \<Rightarrow> error + string list" where
  "topological_sort G =
     (case topological_generations G of Inl e \<Rightarrow> Inl e | Inr gs \<Rightarrow> Inr (concat gs))"

text \<open>
  \<open>Sort.graph(mods)\<close>, as far as the list \<open>sorted\<close> it prints: the imports, the layout, the
  drawing and the printing are left out.
\<close>

definition Sort_graph :: "Mod list \<Rightarrow> error + string list" where
  "Sort_graph mods = topological_sort (build_graph mods)"

section \<open>Notions of the statements and proofs\<close>

subsection \<open>Graphs and orderings\<close>

text \<open>Each node once, each edge once, and the nodes are the end points of the edges.\<close>

definition wf_DiGraph :: "DiGraph \<Rightarrow> bool" where
  "wf_DiGraph G \<longleftrightarrow>
     distinct (nodes G) \<and> distinct (edges G)
     \<and> set (nodes G) = fst ` set (edges G) \<union> snd ` set (edges G)"

text \<open>\<open>u\<close> stands before \<open>v\<close> in a list.\<close>

definition precedes :: "'a \<Rightarrow> 'a \<Rightarrow> 'a list \<Rightarrow> bool" where
  "precedes u v xs \<longleftrightarrow> (\<exists>i j. i < j \<and> j < length xs \<and> xs ! i = u \<and> xs ! j = v)"

text \<open>The number of edges into \<open>v\<close> from nodes outside \<open>P\<close>.\<close>

definition cnt :: "DiGraph \<Rightarrow> string list \<Rightarrow> string \<Rightarrow> nat" where
  "cnt G P v = length (filter (\<lambda>e. snd e = v \<and> fst e \<notin> set P) (edges G))"

text \<open>
  The invariant of the sort: \<open>P\<close> are the nodes already taken from a generation, in
  order; \<open>Q\<close> are the nodes waiting (the rest of the generation, then the next one).
\<close>

definition kahn_inv :: "DiGraph \<Rightarrow> string list \<Rightarrow> string list \<Rightarrow> indegree_map \<Rightarrow> bool" where
  "kahn_inv G P Q im \<longleftrightarrow>
     distinct (P @ Q) \<and> set (P @ Q) \<subseteq> set (nodes G)
     \<and> (\<forall>v. map_of im v =
           (if v \<in> set (nodes G) \<and> v \<notin> set (P @ Q) then Some (int (cnt G P v)) else None))
     \<and> (\<forall>v. v \<in> set (nodes G) \<and> v \<notin> set (P @ Q) \<longrightarrow> 0 < cnt G P v)
     \<and> (\<forall>v \<in> set Q. cnt G P v = 0)
     \<and> (\<forall>u v. (u, v) \<in> set (edges G) \<and> v \<in> set P \<longrightarrow> precedes u v P)"

subsection \<open>Records a format carries\<close>






subsection \<open>Example collections\<close>

text \<open>\<open>A\<close> loads after \<open>C\<close>, \<open>B\<close> loads before \<open>A\<close>; the collection order is \<open>A\<close>, \<open>B\<close>, \<open>C\<close>.\<close>

definition example_tiebreak :: "Mod list" where
  "example_tiebreak =
     [(mk_Mod ''A'' None None)\<lparr>after := Some [''C'']\<rparr>,
      (mk_Mod ''B'' None None)\<lparr>before := Some [''A'']\<rparr>,
      mk_Mod ''C'' None None]"

text \<open>The collection \<open>{A before B, B before A}\<close>, and the same with other names.\<close>

definition example_cycle_AB :: "Mod list" where
  "example_cycle_AB =
     [(mk_Mod ''A'' None None)\<lparr>before := Some [''B'']\<rparr>,
      (mk_Mod ''B'' None None)\<lparr>before := Some [''A'']\<rparr>]"

definition example_cycle_CD :: "Mod list" where
  "example_cycle_CD =
     [(mk_Mod ''C'' None None)\<lparr>before := Some [''D'']\<rparr>,
      (mk_Mod ''D'' None None)\<lparr>before := Some [''C'']\<rparr>]"


section \<open>Termination of the sort\<close>

text \<open>The loop over the generations ends: every node that enters \<open>zero_indegree\<close> has left \<open>indegree_map\<close>.\<close>

lemma length_delete_less:
  assumes "map_of al k = Some v"
  shows "length (AList.delete k al) < length al"
proof -
  from assms have "(k, v) \<in> set al" by (rule map_of_SomeD)
  then show ?thesis
    unfolding AList.delete_eq by (rule length_filter_less) simp
qed

lemma length_update_present:
  "map_of al k = Some v \<Longrightarrow> length (AList.update k w al) = length al"
  by (induction al) (auto split: if_splits)

lemma relax_length:
  "relax cs im zero = Inr (im', zero')
     \<Longrightarrow> length im' + length zero' \<le> length im + length zero"
proof (induction cs arbitrary: im zero)
  case Nil
  then show ?case by simp
next
  case (Cons c cs)
  from Cons.prems obtain d where d: "map_of im c = Some d"
    by (auto split: option.splits)
  show ?case
  proof (cases "d - 1 = 0")
    case True
    with Cons.prems d have "relax cs (AList.delete c im) (zero @ [c]) = Inr (im', zero')"
      by simp
    from Cons.IH [OF this] length_delete_less [OF d] show ?thesis by simp
  next
    case False
    with Cons.prems d have "relax cs (AList.update c (d - 1) im) zero = Inr (im', zero')"
      by simp
    from Cons.IH [OF this] length_update_present [OF d] show ?thesis by simp
  qed
qed

lemma generation_length:
  "generation G ns im zero = Inr (im', zero')
     \<Longrightarrow> length im' + length zero' \<le> length im + length zero"
proof (induction ns arbitrary: im zero)
  case Nil
  then show ?case by simp
next
  case (Cons n ns)
  from Cons.prems obtain im1 zero1 where
    r: "relax (neighbors G n) im zero = Inr (im1, zero1)"
    and g: "generation G ns im1 zero1 = Inr (im', zero')"
    by (auto split: if_splits sum.splits)
  from relax_length [OF r] Cons.IH [OF g] show ?case by simp
qed

termination generations
proof (relation "measure (\<lambda>(G, im, zero). length im + (if zero = [] then 0 else 1))")
  show "wf (measure (\<lambda>(G, im, zero). length im + (if zero = [] then 0 else 1)))"
    by simp
next
  fix G :: DiGraph and im :: indegree_map and zero :: "string list" and x2 im' zero'
  assume "zero \<noteq> []" and "generation G zero im [] = Inr x2" and "(im', zero') = x2"
  then have "length im' + length zero' \<le> length im"
    using generation_length [of G zero im "[]" im' zero'] by simp
  then show "((G, im', zero'), (G, im, zero))
      \<in> measure (\<lambda>(G, im, zero). length im + (if zero = [] then 0 else 1))"
    using \<open>zero \<noteq> []\<close> by (cases zero') auto
qed

declare generations.simps [simp del]

section \<open>Integers as text\<close>

lemma isdigit_digit_char: "d < 10 \<Longrightarrow> isdigit (digit_char d)"
  by (simp add: isdigit_def digit_char_def)

lemma digit_val_digit_char: "d < 10 \<Longrightarrow> digit_val (digit_char d) = d"
  by (simp add: digit_val_def digit_char_def)

lemma str_nat_small: "n < 10 \<Longrightarrow> str_nat n = [digit_char n]"
  by (subst str_nat.simps) simp

lemma str_nat_large:
  "\<not> n < 10 \<Longrightarrow> str_nat n = str_nat (n div 10) @ [digit_char (n mod 10)]"
  by (subst str_nat.simps) simp

lemma digits_value_str_nat:
  "digits_value acc p (str_nat n @ rest)
     = digits_value (acc * 10 ^ length (str_nat n) + n) True rest"
proof (induction n arbitrary: acc p rest rule: str_nat.induct)
  case (1 n)
  show ?case
  proof (cases "n < 10")
    case True
    then show ?thesis
      by (simp add: str_nat_small isdigit_digit_char digit_val_digit_char)
  next
    case False
    have "digits_value acc p (str_nat n @ rest)
        = digits_value acc p (str_nat (n div 10) @ (digit_char (n mod 10) # rest))"
      using False by (simp add: str_nat_large)
    also have "\<dots> = digits_value (acc * 10 ^ length (str_nat (n div 10)) + n div 10) True
                      (digit_char (n mod 10) # rest)"
      using 1 False by simp
    also have "\<dots> = digits_value (acc * 10 ^ length (str_nat n) + n) True rest"
      using False
      by (simp add: str_nat_large [of n] isdigit_digit_char digit_val_digit_char algebra_simps)
    finally show ?thesis .
  qed
qed

lemma str_nat_digits: "c \<in> set (str_nat n) \<Longrightarrow> isdigit c"
proof (induction n rule: str_nat.induct)
  case (1 n)
  then show ?case
    by (cases "n < 10") (auto simp: str_nat_small str_nat_large isdigit_digit_char)
qed

lemma str_nat_nonempty: "str_nat n \<noteq> []"
  by (cases "n < 10") (simp_all add: str_nat_small str_nat_large)

lemma isdigit_not_special:
  "isdigit c \<Longrightarrow> \<not> int_isspace c \<and> \<not> isspace c \<and> c \<noteq> CHR ''-'' \<and> c \<noteq> CHR ''+''"
  by (auto simp: isdigit_def int_isspace_def isspace_def)

lemma dropWhile_hd: "xs \<noteq> [] \<Longrightarrow> \<not> P (hd xs) \<Longrightarrow> dropWhile P xs = xs"
  by (cases xs) auto

lemma digits_value_str_nat_all: "digits_value 0 False (str_nat n) = Some n"
  using digits_value_str_nat [of 0 False n "[]"] by simp

lemma int_strip_str_nat:
  "rev (dropWhile int_isspace (rev (dropWhile int_isspace (str_nat n)))) = str_nat n"
proof -
  have h: "\<not> int_isspace (hd (str_nat n))" "\<not> int_isspace (last (str_nat n))"
    using str_nat_digits [of _ n] str_nat_nonempty [of n] isdigit_not_special
    by (metis hd_in_set, metis last_in_set)
  have "dropWhile int_isspace (str_nat n) = str_nat n"
    using h(1) str_nat_nonempty by (simp add: dropWhile_hd)
  moreover have "dropWhile int_isspace (rev (str_nat n)) = rev (str_nat n)"
    using h(2) str_nat_nonempty by (simp add: dropWhile_hd hd_rev)
  ultimately show ?thesis by simp
qed

lemma int_of_str_str_int: "int_of_str (str_int i) = Inr i"
proof (cases "i < 0")
  case False
  have hd: "hd (str_nat (nat i)) \<noteq> CHR ''-''" "hd (str_nat (nat i)) \<noteq> CHR ''+''"
    using str_nat_digits [of _ "nat i"] str_nat_nonempty [of "nat i"] isdigit_not_special
    by (metis hd_in_set)+
  show ?thesis
    using False hd
    by (simp add: int_of_str_def str_int_def int_strip_str_nat str_nat_nonempty
        digits_value_str_nat_all Let_def)
next
  case True
  have l: "\<not> int_isspace (last (str_nat (nat (- i))))"
    using str_nat_digits [of _ "nat (- i)"] str_nat_nonempty [of "nat (- i)"] isdigit_not_special
    by (metis last_in_set)
  have m: "\<not> int_isspace (CHR ''-'')" by (simp add: int_isspace_def)
  have "dropWhile int_isspace (rev (CHR ''-'' # str_nat (nat (- i)))) = rev (CHR ''-'' # str_nat (nat (- i)))"
    using l str_nat_nonempty [of "nat (- i)"] by (intro dropWhile_hd) (simp_all add: hd_append hd_rev)
  then have "rev (dropWhile int_isspace (rev (dropWhile int_isspace (str_int i)))) = str_int i"
    using True m by (simp add: str_int_def)
  then show ?thesis
    using True
    by (simp add: int_of_str_def str_int_def digits_value_str_nat_all Let_def)
qed

lemma str_int_inj: "str_int a = str_int b \<Longrightarrow> a = b"
  by (metis int_of_str_str_int sum.inject(2))

section \<open>The built graph\<close>

lemma contains_iff: "contains mods a \<longleftrightarrow> (\<exists>m \<in> set mods. packageid m = a)"
  by (induction mods) (auto simp: Mod_equals_def)

lemma edges_add_node: "edges (add_node g u) = edges g"
  by (simp add: add_node_def)

lemma nodes_add_node: "set (nodes (add_node g u)) = insert u (set (nodes g))"
  by (auto simp: add_node_def)

lemma edges_add_edge: "set (edges (add_edge g u v)) = insert (u, v) (set (edges g))"
  by (auto simp: add_edge_def Let_def edges_add_node)

lemma nodes_add_edge: "set (nodes (add_edge g u v)) = insert u (insert v (set (nodes g)))"
  by (auto simp: add_edge_def Let_def nodes_add_node)

lemma edges_fold_after:
  "set (edges (fold (after_step mods m) xs g))
     = set (edges g) \<union> {(a, packageid m) | a. a \<in> set xs \<and> (\<exists>m' \<in> set mods. packageid m' = a)
        \<and> a \<notin> set ignore \<and> packageid m \<notin> set ignore}"
  by (induction xs arbitrary: g) (auto simp: after_step_def edges_add_edge contains_iff)

lemma edges_fold_before:
  "set (edges (fold (before_step mods m) xs g))
     = set (edges g) \<union> {(packageid m, b) | b. b \<in> set xs \<and> (\<exists>m' \<in> set mods. packageid m' = b)
        \<and> b \<notin> set ignore \<and> packageid m \<notin> set ignore}"
  by (induction xs arbitrary: g) (auto simp: before_step_def edges_add_edge contains_iff)

lemma edges_mod_step:
  "set (edges (mod_step mods m g))
     = set (edges g)
       \<union> {(a, packageid m) | a. (\<exists>xs. after m = Some xs \<and> a \<in> set xs)
            \<and> (\<exists>m' \<in> set mods. packageid m' = a)
            \<and> a \<notin> set ignore \<and> packageid m \<notin> set ignore}
       \<union> {(packageid m, b) | b. (\<exists>xs. before m = Some xs \<and> b \<in> set xs)
            \<and> (\<exists>m' \<in> set mods. packageid m' = b)
            \<and> b \<notin> set ignore \<and> packageid m \<notin> set ignore}"
  by (cases "after m"; cases "before m")
     (auto simp: mod_step_def Let_def truthy_list_def edges_fold_after edges_fold_before)

lemma edges_fold_mod_step:
  "set (edges (fold (mod_step mods) ms g))
     = set (edges g)
       \<union> {(a, packageid m) | a m. m \<in> set ms \<and> (\<exists>xs. after m = Some xs \<and> a \<in> set xs)
            \<and> (\<exists>m' \<in> set mods. packageid m' = a)
            \<and> a \<notin> set ignore \<and> packageid m \<notin> set ignore}
       \<union> {(packageid m, b) | b m. m \<in> set ms \<and> (\<exists>xs. before m = Some xs \<and> b \<in> set xs)
            \<and> (\<exists>m' \<in> set mods. packageid m' = b)
            \<and> b \<notin> set ignore \<and> packageid m \<notin> set ignore}"
proof (induction ms arbitrary: g)
  case Nil
  then show ?case by simp
next
  case (Cons m ms)
  show ?case
    unfolding fold_simps Cons.IH edges_mod_step by (simp only: set_simps) blast
qed

lemma edges_build_graph:
  "set (edges (build_graph mods))
     = {(a, packageid m) | a m. m \<in> set mods \<and> (\<exists>xs. after m = Some xs \<and> a \<in> set xs)
            \<and> (\<exists>m' \<in> set mods. packageid m' = a)
            \<and> a \<notin> set ignore \<and> packageid m \<notin> set ignore}
       \<union> {(packageid m, b) | b m. m \<in> set mods \<and> (\<exists>xs. before m = Some xs \<and> b \<in> set xs)
            \<and> (\<exists>m' \<in> set mods. packageid m' = b)
            \<and> b \<notin> set ignore \<and> packageid m \<notin> set ignore}"
  by (simp add: build_graph_def edges_fold_mod_step empty_DiGraph_def)


text \<open>
  A built graph has each node and each edge once, and its nodes are the end points of
  its edges: \<open>add_edge\<close> is the only way in.
\<close>

lemma wf_add_edge:
  assumes "wf_DiGraph g"
  shows "wf_DiGraph (add_edge g u v)"
proof -
  have "distinct (nodes (add_edge g u v))"
    using assms by (auto simp: wf_DiGraph_def add_edge_def add_node_def Let_def)
  moreover have "distinct (edges (add_edge g u v))"
    using assms by (auto simp: wf_DiGraph_def add_edge_def add_node_def Let_def)
  moreover have "set (nodes (add_edge g u v))
      = fst ` set (edges (add_edge g u v)) \<union> snd ` set (edges (add_edge g u v))"
    using assms unfolding wf_DiGraph_def nodes_add_edge edges_add_edge by auto
  ultimately show ?thesis by (simp add: wf_DiGraph_def)
qed

lemma wf_fold_after: "wf_DiGraph g \<Longrightarrow> wf_DiGraph (fold (after_step mods m) xs g)"
  by (induction xs arbitrary: g) (simp_all add: after_step_def wf_add_edge)

lemma wf_fold_before: "wf_DiGraph g \<Longrightarrow> wf_DiGraph (fold (before_step mods m) xs g)"
  by (induction xs arbitrary: g) (simp_all add: before_step_def wf_add_edge)

lemma wf_mod_step: "wf_DiGraph g \<Longrightarrow> wf_DiGraph (mod_step mods m g)"
  by (simp add: mod_step_def Let_def wf_fold_after wf_fold_before)

lemma wf_fold_mod_step: "wf_DiGraph g \<Longrightarrow> wf_DiGraph (fold (mod_step mods) ms g)"
  by (induction ms arbitrary: g) (simp_all add: wf_mod_step)

lemma wf_build_graph: "wf_DiGraph (build_graph mods)"
  unfolding build_graph_def
  by (rule wf_fold_mod_step) (simp add: wf_DiGraph_def empty_DiGraph_def)

text \<open>The graph depends on the package ids and the two relations of the records only.\<close>

lemma contains_cong:
  assumes "map packageid mods = map packageid mods'"
  shows "contains mods a = contains mods' a"
proof -
  have "contains ms a \<longleftrightarrow> a \<in> set (map packageid ms)" for ms
    unfolding contains_iff by auto
  then show ?thesis by (simp only: assms)
qed

lemma mod_step_cong:
  assumes "map packageid mods = map packageid mods'"
    and "packageid m = packageid m'" and "after m = after m'" and "before m = before m'"
  shows "mod_step mods m = mod_step mods' m'"
proof -
  have a: "after_step mods m = after_step mods' m'"
    by (intro ext) (simp add: after_step_def assms(2) contains_cong [OF assms(1)])
  have b: "before_step mods m = before_step mods' m'"
    by (intro ext) (simp add: before_step_def assms(2) contains_cong [OF assms(1)])
  show ?thesis
    by (intro ext) (simp only: mod_step_def a b assms(3,4))
qed

lemma fold_mod_step_cong:
  assumes "map packageid mods = map packageid mods'"
    and "list_all2 (\<lambda>m m'. packageid m = packageid m' \<and> after m = after m' \<and> before m = before m') ms ms'"
  shows "fold (mod_step mods) ms g = fold (mod_step mods') ms' g"
  using assms(2)
proof (induction ms ms' arbitrary: g rule: list_all2_induct)
  case Nil
  then show ?case by simp
next
  case (Cons m ms m' ms')
  then show ?case
    using mod_step_cong [OF assms(1), of m m'] by simp
qed

lemma build_graph_cong:
  assumes "map (\<lambda>m. (packageid m, before m, after m)) mods
         = map (\<lambda>m. (packageid m, before m, after m)) mods'"
  shows "build_graph mods = build_graph mods'"
proof -
  have "map fst (map (\<lambda>m. (packageid m, before m, after m)) mods)
      = map fst (map (\<lambda>m. (packageid m, before m, after m)) mods')"
    using assms by simp
  then have 1: "map packageid mods = map packageid mods'"
    by (simp add: comp_def)
  have "list_all2 (=) (map (\<lambda>m. (packageid m, before m, after m)) mods)
      (map (\<lambda>m. (packageid m, before m, after m)) mods')"
    using assms by (simp add: list.rel_eq)
  then have 2: "list_all2 (\<lambda>m m'. packageid m = packageid m' \<and> after m = after m'
      \<and> before m = before m') mods mods'"
    by (simp add: list.rel_map conj_commute)
  show ?thesis
    unfolding build_graph_def by (rule fold_mod_step_cong [OF 1 2])
qed

lemma mod_step_ignore: "packageid m \<in> set ignore \<Longrightarrow> mod_step mods m DG = DG"
proof -
  assume i: "packageid m \<in> set ignore"
  have a: "fold (after_step mods m) xs g = g" for xs g
    using i by (induction xs arbitrary: g) (simp_all add: after_step_def)
  have b: "fold (before_step mods m) xs g = g" for xs g
    using i by (induction xs arbitrary: g) (simp_all add: before_step_def)
  show ?thesis by (simp add: mod_step_def a b)
qed

section \<open>The topological sort is correct\<close>

lemma precedes_append: "precedes u v xs \<Longrightarrow> precedes u v (xs @ ys)"
proof -
  assume "precedes u v xs"
  then obtain i j where ij: "i < j" "j < length xs" "xs ! i = u" "xs ! j = v"
    unfolding precedes_def by blast
  then have "(xs @ ys) ! i = u" "(xs @ ys) ! j = v" "j < length (xs @ ys)"
    by (simp_all add: nth_append)
  with ij(1) show ?thesis unfolding precedes_def by blast
qed

lemma precedes_snoc: "u \<in> set xs \<Longrightarrow> precedes u v (xs @ [v])"
proof -
  assume "u \<in> set xs"
  then obtain i where i: "i < length xs" "xs ! i = u"
    by (auto simp: in_set_conv_nth)
  then have "(xs @ [v]) ! i = u" "(xs @ [v]) ! length xs = v" "length xs < length (xs @ [v])"
    by (simp_all add: nth_append)
  with i(1) show ?thesis unfolding precedes_def by blast
qed

lemma precedes_acyclic:
  assumes "distinct xs" and "\<forall>(u, v) \<in> E. precedes u v xs"
  shows "acyclic E"
proof -
  let ?R = "{(u, v). precedes u v xs}"
  have tr: "trans ?R"
  proof (rule transI)
    fix x y z assume "(x, y) \<in> ?R" "(y, z) \<in> ?R"
    then obtain i j j' k where
      1: "i < j" "j < length xs" "xs ! i = x" "xs ! j = y" and
      2: "j' < k" "k < length xs" "xs ! j' = y" "xs ! k = z"
      unfolding precedes_def by blast
    from 2 have "j' < length xs" by simp
    with 1 2 assms(1) have "j = j'"
      using nth_eq_iff_index_eq [of xs j j'] by simp
    with 1 2 have "i < k" by simp
    with 1 2 show "(x, z) \<in> ?R" unfolding precedes_def by blast
  qed
  have irr: "(x, x) \<notin> ?R" for x
  proof
    assume "(x, x) \<in> ?R"
    then obtain i j where "i < j" "j < length xs" "xs ! i = x" "xs ! j = x"
      unfolding precedes_def by blast
    with assms(1) show False
      using nth_eq_iff_index_eq [of xs i j] by simp
  qed
  have "acyclic ?R"
    unfolding acyclic_def using tr irr by simp
  moreover have "E \<subseteq> ?R" using assms(2) by auto
  ultimately show ?thesis by (rule acyclic_subset)
qed

lemma cnt_zero_iff: "cnt G P v = 0 \<longleftrightarrow> (\<forall>u. (u, v) \<in> set (edges G) \<longrightarrow> u \<in> set P)"
  unfolding cnt_def by (auto simp: filter_empty_conv)

lemma cnt_Nil: "int (cnt G [] v) = in_degree G v"
  by (simp add: cnt_def in_degree_def)

lemma length_filter_eq_distinct:
  "distinct xs \<Longrightarrow> length (filter (\<lambda>e. e = x) xs) = (if x \<in> set xs then 1 else 0)"
  by (induction xs) auto

lemma cnt_snoc:
  assumes "distinct (edges G)" and "n \<notin> set P"
  shows "cnt G (P @ [n]) v + (if (n, v) \<in> set (edges G) then 1 else 0) = cnt G P v"
proof -
  let ?A = "\<lambda>e. snd e = v \<and> fst e \<notin> set P"
  have "length (filter (\<lambda>e. fst e \<noteq> n) (filter ?A (edges G)))
      + length (filter (\<lambda>e. \<not> fst e \<noteq> n) (filter ?A (edges G)))
      = length (filter ?A (edges G))"
    by (rule sum_length_filter_compl)
  moreover have "filter (\<lambda>e. fst e \<noteq> n) (filter ?A (edges G))
      = filter (\<lambda>e. snd e = v \<and> fst e \<notin> set (P @ [n])) (edges G)"
    by (auto simp: filter_filter intro: filter_cong)
  moreover have "filter (\<lambda>e. \<not> fst e \<noteq> n) (filter ?A (edges G))
      = filter (\<lambda>e. e = (n, v)) (edges G)"
    using assms(2) by (auto simp: filter_filter intro!: filter_cong)
  ultimately show ?thesis
    using length_filter_eq_distinct [OF assms(1), of "(n, v)"] by (simp add: cnt_def)
qed

lemma distinct_neighbors: "distinct (edges G) \<Longrightarrow> distinct (neighbors G n)"
  unfolding neighbors_def
  by (rule distinct_map [THEN iffD2]) (auto simp: inj_on_def)

lemma set_neighbors: "set (neighbors G n) = {v. (n, v) \<in> set (edges G)}"
  unfolding neighbors_def by force

text \<open>What the loop over the children of one node does to \<open>indegree_map\<close>.\<close>

lemma relax_char:
  assumes "distinct cs" and "\<forall>c \<in> set cs. map_of im c \<noteq> None"
  shows "\<exists>im'. relax cs im zero = Inr (im', zero @ filter (\<lambda>c. map_of im c = Some 1) cs)
      \<and> (\<forall>v. map_of im' v =
            (if v \<in> set cs
             then (if map_of im v = Some 1 then None else map_option (\<lambda>d. d - 1) (map_of im v))
             else map_of im v))"
  using assms
proof (induction cs arbitrary: im zero)
  case Nil
  then show ?case by simp
next
  case (Cons c cs)
  from Cons.prems obtain d where d: "map_of im c = Some d" by auto
  from Cons.prems have c: "c \<notin> set cs" and dist: "distinct cs" by simp_all
  define im1 where "im1 = (if d = 1 then AList.delete c im else AList.update c (d - 1) im)"
  define zero1 where "zero1 = (if d = 1 then zero @ [c] else zero)"
  have step: "relax (c # cs) im zero = relax cs im1 zero1"
    using d by (simp add: im1_def zero1_def)
  have at_c: "map_of im1 c = (if d = 1 then None else Some (d - 1))"
    by (simp add: im1_def delete_conv' update_conv')
  have same: "map_of im1 v = map_of im v" if "v \<in> set cs" for v
  proof -
    from that c have "v \<noteq> c" by auto
    then show ?thesis by (simp add: im1_def delete_conv' update_conv')
  qed
  have other: "map_of im1 v = map_of im v" if "v \<noteq> c" for v
    using that by (simp add: im1_def delete_conv' update_conv')
  have pre: "\<forall>c' \<in> set cs. map_of im1 c' \<noteq> None"
    using Cons.prems(2) by (simp add: same)
  from Cons.IH [OF dist pre, of zero1] obtain im' where
    r: "relax cs im1 zero1 = Inr (im', zero1 @ filter (\<lambda>c. map_of im1 c = Some 1) cs)"
    and m: "\<And>v. map_of im' v =
          (if v \<in> set cs
           then (if map_of im1 v = Some 1 then None else map_option (\<lambda>d. d - 1) (map_of im1 v))
           else map_of im1 v)"
    by blast
  have f: "filter (\<lambda>c. map_of im1 c = Some 1) cs = filter (\<lambda>c. map_of im c = Some 1) cs"
    by (rule filter_cong) (simp_all add: same)
  have "relax (c # cs) im zero = Inr (im', zero @ filter (\<lambda>c. map_of im c = Some 1) (c # cs))"
    unfolding step r f using d by (simp add: zero1_def)
  moreover have "map_of im' v =
          (if v \<in> set (c # cs)
           then (if map_of im v = Some 1 then None else map_option (\<lambda>d. d - 1) (map_of im v))
           else map_of im v)" for v
  proof (cases "v = c")
    case True
    then show ?thesis using m [of c] c d at_c by simp
  next
    case False
    show ?thesis
    proof (cases "v \<in> set cs")
      case True
      then show ?thesis using m [of v] same [OF True] by simp
    next
      case False
      with \<open>v \<noteq> c\<close> show ?thesis using m [of v] other [of v] by simp
    qed
  qed
  ultimately show ?case by blast
qed

lemma relax_step:
  assumes wf: "wf_DiGraph G" and inv: "kahn_inv G P (n # R) im"
  shows "\<exists>im' newz. relax (neighbors G n) im zero = Inr (im', zero @ newz)
      \<and> kahn_inv G (P @ [n]) (R @ newz) im'"
proof -
  let ?cs = "neighbors G n"
  from wf have dE: "distinct (edges G)"
    and ends: "\<And>u v. (u, v) \<in> set (edges G) \<Longrightarrow> u \<in> set (nodes G) \<and> v \<in> set (nodes G)"
    unfolding wf_DiGraph_def by force+
  from inv have dPQ: "distinct (P @ n # R)" and sub: "set (P @ n # R) \<subseteq> set (nodes G)"
    and mp: "\<And>v. map_of im v =
           (if v \<in> set (nodes G) \<and> v \<notin> set (P @ n # R) then Some (int (cnt G P v)) else None)"
    and pos: "\<And>v. v \<in> set (nodes G) \<Longrightarrow> v \<notin> set (P @ n # R) \<Longrightarrow> 0 < cnt G P v"
    and zq: "\<And>v. v \<in> set (n # R) \<Longrightarrow> cnt G P v = 0"
    and srt: "\<And>u v. (u, v) \<in> set (edges G) \<Longrightarrow> v \<in> set P \<Longrightarrow> precedes u v P"
    unfolding kahn_inv_def by blast+
  from dPQ have nP: "n \<notin> set P" and nR: "n \<notin> set R" by auto
  have snoc: "cnt G (P @ [n]) v + (if (n, v) \<in> set (edges G) then 1 else 0) = cnt G P v" for v
    by (rule cnt_snoc [OF dE nP])
  \<comment> \<open>every child is still in the map\<close>
  have child: "c \<in> set (nodes G) \<and> c \<notin> set (P @ n # R) \<and> 0 < cnt G P c"
    if "c \<in> set ?cs" for c
  proof -
    from that have e: "(n, c) \<in> set (edges G)" by (simp add: set_neighbors)
    then have c0: "cnt G P c \<noteq> 0" using nP by (auto simp: cnt_zero_iff)
    have "c \<notin> set P"
    proof
      assume "c \<in> set P"
      from srt [OF e this] have "n \<in> set P"
        unfolding precedes_def by (metis less_trans nth_mem)
      with nP show False by simp
    qed
    moreover have "c \<notin> set (n # R)" using zq [of c] c0 by blast
    ultimately show ?thesis using ends [OF e] c0 by simp
  qed
  have dcs: "distinct ?cs" by (rule distinct_neighbors [OF dE])
  have "\<forall>c \<in> set ?cs. map_of im c \<noteq> None"
    using child mp by simp
  from relax_char [OF dcs this, of zero] obtain im' where
    r: "relax ?cs im zero = Inr (im', zero @ filter (\<lambda>c. map_of im c = Some 1) ?cs)"
    and m: "\<And>v. map_of im' v =
          (if v \<in> set ?cs
           then (if map_of im v = Some 1 then None else map_option (\<lambda>d. d - 1) (map_of im v))
           else map_of im v)"
    by blast
  define newz where "newz = filter (\<lambda>c. map_of im c = Some 1) ?cs"
  have newz_iff: "v \<in> set newz \<longleftrightarrow> (n, v) \<in> set (edges G) \<and> cnt G P v = 1" for v
    using child [of v] mp [of v] by (auto simp: newz_def set_neighbors)
  have a: "distinct ((P @ [n]) @ R @ newz)"
  proof -
    have "distinct newz" using dcs by (simp add: newz_def)
    moreover have "set newz \<inter> set (P @ n # R) = {}"
      using child by (auto simp: newz_def)
    ultimately show ?thesis using dPQ by auto
  qed
  have b: "set ((P @ [n]) @ R @ newz) \<subseteq> set (nodes G)"
    using sub child by (auto simp: newz_def)
  have c: "map_of im' v =
      (if v \<in> set (nodes G) \<and> v \<notin> set ((P @ [n]) @ R @ newz)
       then Some (int (cnt G (P @ [n]) v)) else None)" for v
  proof (cases "(n, v) \<in> set (edges G)")
    case True
    then have vc: "v \<in> set ?cs" by (simp add: set_neighbors)
    from child [OF vc] have v: "v \<in> set (nodes G)" "v \<notin> set (P @ n # R)" "0 < cnt G P v"
      by simp_all
    from mp [of v] v have mv: "map_of im v = Some (int (cnt G P v))" by simp
    show ?thesis
    proof (cases "cnt G P v = 1")
      case True
      then have "v \<in> set newz" using newz_iff \<open>(n, v) \<in> set (edges G)\<close> by simp
      then show ?thesis using m [of v] vc mv True by simp
    next
      case False
      then have "v \<notin> set newz" using newz_iff by simp
      moreover have "int (cnt G P v) - 1 = int (cnt G (P @ [n]) v)"
        using snoc [of v] \<open>(n, v) \<in> set (edges G)\<close> by simp
      ultimately show ?thesis using m [of v] vc mv False v by simp
    qed
  next
    case False
    then have vc: "v \<notin> set ?cs" by (simp add: set_neighbors)
    have "v \<notin> set newz" using False newz_iff by simp
    moreover have "cnt G (P @ [n]) v = cnt G P v" using snoc [of v] False by simp
    ultimately show ?thesis using m [of v] vc mp [of v] by auto
  qed
  have d: "0 < cnt G (P @ [n]) v"
    if "v \<in> set (nodes G)" "v \<notin> set ((P @ [n]) @ R @ newz)" for v
  proof -
    from that have v: "v \<notin> set (P @ n # R)" "v \<notin> set newz" by auto
    from pos [OF that(1) v(1)] have "0 < cnt G P v" .
    with v(2) newz_iff [of v] snoc [of v] show ?thesis
      by (cases "(n, v) \<in> set (edges G)") auto
  qed
  have e: "cnt G (P @ [n]) v = 0" if "v \<in> set (R @ newz)" for v
  proof (cases "v \<in> set R")
    case True
    then have "cnt G P v = 0" using zq by simp
    then show ?thesis using snoc [of v] by simp
  next
    case False
    with that have "v \<in> set newz" by simp
    then show ?thesis using newz_iff [of v] snoc [of v] by simp
  qed
  have f: "precedes u v (P @ [n])" if "(u, v) \<in> set (edges G)" "v \<in> set (P @ [n])" for u v
  proof (cases "v \<in> set P")
    case True
    from srt [OF that(1) this] show ?thesis by (rule precedes_append)
  next
    case False
    with that have "v = n" by simp
    moreover have "u \<in> set P"
      using zq [of n] that(1) \<open>v = n\<close> by (simp add: cnt_zero_iff)
    ultimately show ?thesis by (simp add: precedes_snoc)
  qed
  have "kahn_inv G (P @ [n]) (R @ newz) im'"
    unfolding kahn_inv_def using a b c d e f by blast
  with r show ?thesis unfolding newz_def by blast
qed

lemma generation_inv:
  assumes "wf_DiGraph G" and "kahn_inv G P (ns @ zero) im"
  shows "\<exists>im' zero'. generation G ns im zero = Inr (im', zero') \<and> kahn_inv G (P @ ns) zero' im'"
  using assms(2)
proof (induction ns arbitrary: P im zero)
  case Nil
  then show ?case by simp
next
  case (Cons n ns)
  from Cons.prems have n: "n \<in> set (nodes G)"
    unfolding kahn_inv_def by auto
  from Cons.prems have "kahn_inv G P (n # (ns @ zero)) im" by simp
  from relax_step [OF assms(1) this, of zero] obtain im1 newz where
    r: "relax (neighbors G n) im zero = Inr (im1, zero @ newz)"
    and i: "kahn_inv G (P @ [n]) ((ns @ zero) @ newz) im1"
    by blast
  from i have "kahn_inv G (P @ [n]) (ns @ (zero @ newz)) im1" by simp
  from Cons.IH [OF this] obtain im' zero' where
    "generation G ns im1 (zero @ newz) = Inr (im', zero')"
    "kahn_inv G ((P @ [n]) @ ns) zero' im'"
    by blast
  then show ?case using n r by simp
qed

text \<open>When nothing waits, either every node is placed or a cycle is left.\<close>

lemma kahn_inv_final:
  assumes "wf_DiGraph G" and "kahn_inv G P [] im"
  shows "(im = [] \<longrightarrow> distinct P \<and> set P = set (nodes G)
            \<and> (\<forall>(u, v) \<in> set (edges G). precedes u v P))
       \<and> (im \<noteq> [] \<longrightarrow> \<not> acyclic (set (edges G)))"
proof -
  from assms(1) have
    ends: "\<And>u v. (u, v) \<in> set (edges G) \<Longrightarrow> u \<in> set (nodes G) \<and> v \<in> set (nodes G)"
    unfolding wf_DiGraph_def by force
  from assms(2) have dP: "distinct P" and sub: "set P \<subseteq> set (nodes G)"
    and mp: "\<And>v. map_of im v =
           (if v \<in> set (nodes G) \<and> v \<notin> set P then Some (int (cnt G P v)) else None)"
    and pos: "\<And>v. v \<in> set (nodes G) \<Longrightarrow> v \<notin> set P \<Longrightarrow> 0 < cnt G P v"
    and srt: "\<And>u v. (u, v) \<in> set (edges G) \<Longrightarrow> v \<in> set P \<Longrightarrow> precedes u v P"
    unfolding kahn_inv_def by simp_all
  have 1: "distinct P \<and> set P = set (nodes G) \<and> (\<forall>(u, v) \<in> set (edges G). precedes u v P)"
    if "im = []"
  proof -
    have "v \<in> set P" if "v \<in> set (nodes G)" for v
      using mp [of v] that \<open>im = []\<close> by (auto split: if_splits)
    with sub have "set P = set (nodes G)" by auto
    with dP srt ends show ?thesis by auto
  qed
  have 2: "\<not> acyclic (set (edges G))" if "im \<noteq> []"
  proof
    assume "acyclic (set (edges G))"
    then have w: "wf (set (edges G))" by (simp add: finite_acyclic_wf)
    from that obtain a b rest where "im = (a, b) # rest"
      by (cases im) auto
    then have "map_of im a = Some b" by simp
    then obtain v d where "map_of im v = Some d" by blast
    with mp [of v] have "v \<in> set (nodes G) - set P" by (auto split: if_splits)
    from wfE_min [OF w this] obtain z where
      z: "z \<in> set (nodes G) - set P" and
      m: "\<And>y. (y, z) \<in> set (edges G) \<Longrightarrow> y \<notin> set (nodes G) - set P"
      by blast
    from z pos [of z] have "cnt G P z \<noteq> 0" by simp
    then obtain y where y: "(y, z) \<in> set (edges G)" "y \<notin> set P"
      unfolding cnt_zero_iff by blast
    with ends [OF y(1)] m [OF y(1)] show False by simp
  qed
  from 1 2 show ?thesis by blast
qed

lemma generations_inv:
  assumes "wf_DiGraph G" and "kahn_inv G P zero im"
  shows "(\<exists>gs. generations G im zero = Inr gs \<and> distinct (P @ concat gs)
            \<and> set (P @ concat gs) = set (nodes G)
            \<and> (\<forall>(u, v) \<in> set (edges G). precedes u v (P @ concat gs)))
       \<or> (generations G im zero = Inl (NetworkXUnfeasible cycle_or_changed)
            \<and> \<not> acyclic (set (edges G)))"
  using assms
proof (induction G im zero arbitrary: P rule: generations.induct)
  case (1 G im zero)
  note wf = "1.prems"(1) and inv = "1.prems"(2)
  show ?case
  proof (cases "zero = []")
    case True
    from kahn_inv_final [OF wf, of P im] inv True have
      f: "im = [] \<longrightarrow> distinct P \<and> set P = set (nodes G)
            \<and> (\<forall>(u, v) \<in> set (edges G). precedes u v P)"
         "im \<noteq> [] \<longrightarrow> \<not> acyclic (set (edges G))"
      by simp_all
    have "generations G im zero
        = (if im \<noteq> [] then Inl (NetworkXUnfeasible cycle_or_changed) else Inr [])"
      using True by (subst generations.simps) simp
    with f show ?thesis by (cases "im = []") simp_all
  next
    case False
    from inv have "kahn_inv G P (zero @ []) im" by simp
    from generation_inv [OF wf this] obtain im' zero' where
      g: "generation G zero im [] = Inr (im', zero')" and i: "kahn_inv G (P @ zero) zero' im'"
      by blast
    from "1.IH" [OF False g refl wf i] have
      "(\<exists>gs. generations G im' zero' = Inr gs \<and> distinct ((P @ zero) @ concat gs)
            \<and> set ((P @ zero) @ concat gs) = set (nodes G)
            \<and> (\<forall>(u, v) \<in> set (edges G). precedes u v ((P @ zero) @ concat gs)))
       \<or> (generations G im' zero' = Inl (NetworkXUnfeasible cycle_or_changed)
            \<and> \<not> acyclic (set (edges G)))" .
    then show ?thesis
    proof
      assume "\<exists>gs. generations G im' zero' = Inr gs \<and> distinct ((P @ zero) @ concat gs)
            \<and> set ((P @ zero) @ concat gs) = set (nodes G)
            \<and> (\<forall>(u, v) \<in> set (edges G). precedes u v ((P @ zero) @ concat gs))"
      then obtain gs where gs: "generations G im' zero' = Inr gs"
        "distinct ((P @ zero) @ concat gs)" "set ((P @ zero) @ concat gs) = set (nodes G)"
        "\<forall>(u, v) \<in> set (edges G). precedes u v ((P @ zero) @ concat gs)"
        by blast
      have "generations G im zero = Inr (zero # gs)"
        using False g gs(1) by (subst generations.simps) simp
      moreover have "distinct (P @ concat (zero # gs))"
        "set (P @ concat (zero # gs)) = set (nodes G)"
        "\<forall>(u, v) \<in> set (edges G). precedes u v (P @ concat (zero # gs))"
        using gs(2-4) by simp_all
      ultimately show ?thesis by blast
    next
      assume "generations G im' zero' = Inl (NetworkXUnfeasible cycle_or_changed)
            \<and> \<not> acyclic (set (edges G))"
      moreover from this have "generations G im zero = Inl (NetworkXUnfeasible cycle_or_changed)"
        using False g by (subst generations.simps) simp
      ultimately show ?thesis by blast
    qed
  qed
qed

lemma map_of_indegree:
  "map_of (filter (\<lambda>(v, d). d > 0) (map (\<lambda>v. (v, in_degree G v)) vs)) v
     = (if v \<in> set vs \<and> in_degree G v > 0 then Some (in_degree G v) else None)"
  by (induction vs) auto

lemma kahn_inv_initial:
  assumes "wf_DiGraph G"
  shows "kahn_inv G [] (filter (\<lambda>v. in_degree G v = 0) (nodes G))
           (filter (\<lambda>(v, d). d > 0) (map (\<lambda>v. (v, in_degree G v)) (nodes G)))"
proof -
  have deg: "in_degree G v = int (cnt G [] v)" for v
    by (simp add: cnt_Nil)
  from assms have "distinct ([] @ filter (\<lambda>v. in_degree G v = 0) (nodes G))"
    unfolding wf_DiGraph_def by simp
  moreover have "set ([] @ filter (\<lambda>v. in_degree G v = 0) (nodes G)) \<subseteq> set (nodes G)"
    by auto
  moreover have "map_of (filter (\<lambda>(v, d). d > 0) (map (\<lambda>v. (v, in_degree G v)) (nodes G))) v
      = (if v \<in> set (nodes G) \<and> v \<notin> set ([] @ filter (\<lambda>v. in_degree G v = 0) (nodes G))
         then Some (int (cnt G [] v)) else None)" for v
    unfolding map_of_indegree by (simp add: deg)
  moreover have "0 < cnt G [] v"
    if "v \<in> set (nodes G) \<and> v \<notin> set ([] @ filter (\<lambda>v. in_degree G v = 0) (nodes G))" for v
    using that by (simp add: deg)
  moreover have "\<forall>v \<in> set (filter (\<lambda>v. in_degree G v = 0) (nodes G)). cnt G [] v = 0"
    by (simp add: deg)
  ultimately show ?thesis
    unfolding kahn_inv_def by simp
qed

text \<open>The three outcomes of the sort, for a built graph.\<close>

lemma topological_sort_cases:
  assumes "wf_DiGraph G"
  shows "(\<exists>order. topological_sort G = Inr order \<and> distinct order
            \<and> set order = set (nodes G)
            \<and> (\<forall>(u, v) \<in> set (edges G). precedes u v order)
            \<and> acyclic (set (edges G)))
       \<or> (topological_sort G = Inl (NetworkXUnfeasible cycle_or_changed)
            \<and> \<not> acyclic (set (edges G)))"
proof -
  from generations_inv [OF assms kahn_inv_initial [OF assms]]
  have "(\<exists>gs. topological_generations G = Inr gs \<and> distinct (concat gs)
            \<and> set (concat gs) = set (nodes G)
            \<and> (\<forall>(u, v) \<in> set (edges G). precedes u v (concat gs)))
       \<or> (topological_generations G = Inl (NetworkXUnfeasible cycle_or_changed)
            \<and> \<not> acyclic (set (edges G)))"
    by (simp add: topological_generations_def)
  then show ?thesis
  proof
    assume "\<exists>gs. topological_generations G = Inr gs \<and> distinct (concat gs)
            \<and> set (concat gs) = set (nodes G)
            \<and> (\<forall>(u, v) \<in> set (edges G). precedes u v (concat gs))"
    then obtain gs where gs: "topological_generations G = Inr gs" "distinct (concat gs)"
      "set (concat gs) = set (nodes G)" "\<forall>(u, v) \<in> set (edges G). precedes u v (concat gs)"
      by blast
    from precedes_acyclic [OF gs(2,4)] have "acyclic (set (edges G))" .
    with gs show ?thesis by (simp add: topological_sort_def)
  next
    assume "topological_generations G = Inl (NetworkXUnfeasible cycle_or_changed)
            \<and> \<not> acyclic (set (edges G))"
    then show ?thesis by (simp add: topological_sort_def)
  qed
qed

section \<open>Properties of \<open>ModList\<close> and of record equality\<close>

text \<open>
  C10. For every ModList \<open>xs\<close>, record \<open>x\<close> and index \<open>i\<close> with \<open>0 \<le> i < len(xs)\<close>,
  \<open>insert(i, x)\<close> replaces the element at position \<open>i\<close> (every other position keeps its
  element) and leaves the length unchanged; for \<open>i = len(xs)\<close>, the call made by
  \<open>append\<close>, it raises \<open>IndexError\<close>, so \<open>append\<close> always fails.
\<close>

theorem insert_replaces_append_fails:
  "(0 \<le> i \<and> i < int (length xs) \<longrightarrow>
      (\<exists>ys. insert_ModList xs i x = Inr ys \<and> length ys = length xs \<and> ys ! nat i = x
         \<and> (\<forall>k < length xs. k \<noteq> nat i \<longrightarrow> ys ! k = xs ! k)))
   \<and> insert_ModList xs (int (length xs)) x = Inl IndexError
   \<and> append_ModList xs x = Inl IndexError"
proof -
  have "nat i < length xs" if "0 \<le> i" "i < int (length xs)"
    using that by linarith
  then show ?thesis
    by (simp add: insert_ModList_def append_ModList_def list_setitem_def Let_def)
qed

theorem insert_replaces_append_fails_witness:
  "(0::int) \<le> 1 \<and> (1::int) < int (length [ModStub 1, ModStub 2])
   \<and> (\<exists>ys. insert_ModList [ModStub 1, ModStub 2] 1 (ModStub 3) = Inr ys
          \<and> length ys = 2 \<and> ys ! 1 = ModStub 3 \<and> ys ! 0 = ModStub 1)
   \<and> append_ModList [ModStub 1, ModStub 2] (ModStub 3) = Inl IndexError"
  using insert_replaces_append_fails [of 1 "[ModStub 1, ModStub 2]" "ModStub 3"]
  by auto

text \<open>
  C9, as the code has it. The claim that a stub record may be identified solely by its
  steamId fails for equality: \<open>ModStub\<close> inherits \<open>Mod.__eq__\<close>, which compares package
  ids only, so two stubs with different steamIds compare equal, and a stub is found in a
  collection under the empty string.
\<close>

theorem stub_equality_counterexample:
  "steamid (ModStub 1) \<noteq> steamid (ModStub 2)
   \<and> Mod_equals (ModStub 1) (PyMod (ModStub 2))
   \<and> contains [ModStub 2] []"
  by (simp add: Mod_equals_def ModStub_def mk_Mod_def)

text \<open>
  C9, amended. Record equality: two records are equal iff their packageId strings match;
  a record compares equal to a plain string iff the string equals its packageId; the
  steamId plays no part in equality, so a stub record (empty packageId) compares equal
  to every stub and to the empty string only, whatever the steamIds, and to no integer.
\<close>

theorem record_equality_by_packageid:
  "(Mod_equals a (PyMod b) \<longleftrightarrow> packageid a = packageid b)
   \<and> (Mod_equals a (PyStr s) \<longleftrightarrow> packageid a = s)
   \<and> Mod_equals (a\<lparr>steamid := x\<rparr>) other = Mod_equals a other
   \<and> Mod_equals (ModStub i) (PyMod (ModStub j))
   \<and> (Mod_equals (ModStub i) (PyStr s) \<longleftrightarrow> s = [])
   \<and> \<not> Mod_equals (ModStub i) (PyInt k)"
  by (cases other) (auto simp: Mod_equals_def ModStub_def mk_Mod_def)

section \<open>The list formats at concrete inputs\<close>

text \<open>
  C8. The claim: a missing optional field (absent steamId or repoUrl) is serialized by
  the V2 and V3 codecs as an empty string in its position, never as the text \<open>None\<close>.
  What the code does for a record without steamId: both codecs write the text \<open>None\<close>
  in the steamId position, because the guard \<open>if not None\<close> tests the constant; and
  the V2 codec raises \<open>TypeError\<close> for a record without repoUrl.
\<close>

theorem absent_steamid_serialized_as_None:
  "V2_format (mk_Mod ''a'' None (Some ''u'')) = Inr ''a::None::u''
   \<and> V3_serialize [mk_Mod ''a'' None (Some ''u'')] = [''a,None,u'']
   \<and> V2_format (mk_Mod ''a'' (Some 7) None) = Inl TypeError"
  by (simp add: V2_format_def V3_serialize_def V3_format_def mk_Mod_def truthy_None_def
      str_opt_int_def SEPERATOR_def writerow_def join_append_def join_append_data_def
      quoted_def quotechar_def delimiter_def lineterminator_def strip_def isspace_def)

text \<open>
  C6. The claim: for each of the three codecs, \<open>parse\<close> never raises on a malformed
  line; the entry is skipped and parsing continues to the end of the input. What the V2
  codec does on the line \<open>a::1\<close>, which lacks the third field: \<open>IndexError\<close> leaves the
  generator, both when the text is the string itself (iterated by character) and when
  it is a sequence holding that one line; only \<open>ValueError\<close> is handled there.
\<close>

theorem V2_parse_raises_on_short_line:
  "V2_parse ''a::1'' = ([], Some IndexError)
   \<and> V2_parse_lines [''a::1''] = ([], Some IndexError)"
  by (simp add: V2_parse_def V2_parse_line_def V2_try_def str_split_def SEPERATOR_def
      getitem_def PACKAGE_ID_def STEAM_ID_def REPO_URL_def truthy_str_def int_of_str_def
      int_isspace_def isdigit_def digit_val_def)

section \<open>Properties of the built graph\<close>

text \<open>
  C4. For every collection, the built graph contains exactly these edges: for each record
  \<open>m\<close> and each id \<open>a\<close> in \<open>m.after\<close> that names a record present in the collection, the
  edge \<open>a \<rightarrow> m\<close>; for each id \<open>b\<close> in \<open>m.before\<close> that names a record present in the
  collection, the edge \<open>m \<rightarrow> b\<close>; except that an edge is left out whenever one of its end
  points is in the ignore-set. A reference to a package id absent from the collection
  gives no edge (and no error: the construction is total).
\<close>

theorem built_edges:
  "set (edges (build_graph mods))
     = {(a, packageid m) | a m. m \<in> set mods \<and> (\<exists>xs. after m = Some xs \<and> a \<in> set xs)
            \<and> (\<exists>m' \<in> set mods. packageid m' = a)
            \<and> a \<notin> set ignore \<and> packageid m \<notin> set ignore}
       \<union> {(packageid m, b) | b m. m \<in> set mods \<and> (\<exists>xs. before m = Some xs \<and> b \<in> set xs)
            \<and> (\<exists>m' \<in> set mods. packageid m' = b)
            \<and> b \<notin> set ignore \<and> packageid m \<notin> set ignore}"
  by (rule edges_build_graph)

text \<open>
  C5, as the code has it. The claim that a record whose \<open>ignored\<close> flag is set
  contributes no node and no edge fails: \<open>Sort.graph\<close> never reads the flag. Here the
  record \<open>A\<close> is flagged and still gives the nodes \<open>A\<close>, \<open>B\<close> and the edge \<open>A \<rightarrow> B\<close>.
\<close>

theorem ignored_flag_counterexample:
  "ignored ((mk_Mod ''A'' None None)\<lparr>before := Some [''B''], ignored := True\<rparr>)
   \<and> build_graph [(mk_Mod ''A'' None None)\<lparr>before := Some [''B''], ignored := True\<rparr>,
                   mk_Mod ''B'' None None]
       = \<lparr>nodes = [''A'', ''B''], edges = [(''A'', ''B'')]\<rparr>"
  by (simp add: build_graph_def mod_step_def truthy_list_def after_step_def before_step_def
      Mod_equals_def mk_Mod_def ignore_def add_edge_def add_node_def empty_DiGraph_def)

text \<open>
  C5, amended. A record whose packageId is in the fixed ignore-set contributes no node
  and no edge to the built graph: its own turn of the loop leaves the graph as it is,
  and no node or edge of the built graph names an id of the ignore-set. The \<open>ignored\<close>
  flag has no effect: setting the flags of the records in any way gives the same graph.
\<close>

theorem ignore_set_contributes_nothing:
  "(packageid m \<in> set ignore \<longrightarrow> mod_step mods m DG = DG)
   \<and> (p \<in> set ignore \<longrightarrow>
        p \<notin> set (nodes (build_graph mods))
        \<and> (\<forall>e \<in> set (edges (build_graph mods)). fst e \<noteq> p \<and> snd e \<noteq> p))
   \<and> build_graph (map (\<lambda>m. m\<lparr>ignored := f m\<rparr>) mods) = build_graph mods"
proof -
  have e: "\<forall>e \<in> set (edges (build_graph mods)). fst e \<noteq> p \<and> snd e \<noteq> p" if "p \<in> set ignore"
    using that unfolding edges_build_graph by auto
  moreover have "p \<notin> set (nodes (build_graph mods))" if "p \<in> set ignore"
    using e [OF that] wf_build_graph [of mods] unfolding wf_DiGraph_def by force
  moreover have "build_graph (map (\<lambda>m. m\<lparr>ignored := f m\<rparr>) mods) = build_graph mods"
    by (rule build_graph_cong) (simp add: comp_def)
  ultimately show ?thesis
    using mod_step_ignore by blast
qed

theorem ignore_set_contributes_nothing_witness:
  "packageid ((mk_Mod ''brrainz.harmony'' None None)\<lparr>before := Some [''A'']\<rparr>) \<in> set ignore
   \<and> mod_step [(mk_Mod ''brrainz.harmony'' None None)\<lparr>before := Some [''A'']\<rparr>,
                (mk_Mod ''A'' None None)\<lparr>after := Some [''brrainz.harmony'']\<rparr>]
        ((mk_Mod ''brrainz.harmony'' None None)\<lparr>before := Some [''A'']\<rparr>) empty_DiGraph
       = empty_DiGraph
   \<and> ''brrainz.harmony'' \<notin> set (nodes (build_graph
        [(mk_Mod ''brrainz.harmony'' None None)\<lparr>before := Some [''A'']\<rparr>,
         (mk_Mod ''A'' None None)\<lparr>after := Some [''brrainz.harmony'']\<rparr>]))
   \<and> build_graph (map (\<lambda>m. m\<lparr>ignored := True\<rparr>)
        [(mk_Mod ''brrainz.harmony'' None None)\<lparr>before := Some [''A'']\<rparr>,
         (mk_Mod ''A'' None None)\<lparr>after := Some [''brrainz.harmony'']\<rparr>])
       = build_graph
        [(mk_Mod ''brrainz.harmony'' None None)\<lparr>before := Some [''A'']\<rparr>,
         (mk_Mod ''A'' None None)\<lparr>after := Some [''brrainz.harmony'']\<rparr>]"
  using ignore_set_contributes_nothing
    [of "(mk_Mod ''brrainz.harmony'' None None)\<lparr>before := Some [''A'']\<rparr>"
        "[(mk_Mod ''brrainz.harmony'' None None)\<lparr>before := Some [''A'']\<rparr>,
          (mk_Mod ''A'' None None)\<lparr>after := Some [''brrainz.harmony'']\<rparr>]"
        empty_DiGraph "''brrainz.harmony''" "\<lambda>_. True"]
  by (simp add: ignore_def mk_Mod_def)

section \<open>Properties of the resolution\<close>

lemma generations_prefix:
  "generations G im zero = Inr gs \<Longrightarrow> \<exists>rest. concat gs = zero @ rest"
  by (subst (asm) generations.simps) (auto split: if_splits sum.splits)

lemma topological_sort_prefix:
  "topological_sort G = Inr order
     \<Longrightarrow> \<exists>rest. order = filter (\<lambda>v. in_degree G v = 0) (nodes G) @ rest"
  unfolding topological_sort_def topological_generations_def
  by (auto split: sum.splits dest: generations_prefix)

lemma acyclic_Nil: "acyclic {}"
  by (simp add: acyclic_def)

lemma example_tiebreak_graph:
  "build_graph example_tiebreak
     = \<lparr>nodes = [''C'', ''A'', ''B''], edges = [(''C'', ''A''), (''B'', ''A'')]\<rparr>"
  by (simp add: example_tiebreak_def build_graph_def mod_step_def truthy_list_def
      after_step_def before_step_def Mod_equals_def mk_Mod_def ignore_def add_edge_def
      add_node_def empty_DiGraph_def)

lemma example_tiebreak_sort: "Sort_graph example_tiebreak = Inr [''C'', ''B'', ''A'']"
  by (simp add: Sort_graph_def example_tiebreak_graph topological_sort_def
      topological_generations_def generations.simps in_degree_def neighbors_def)

lemma example_cycle_AB_graph:
  "build_graph example_cycle_AB
     = \<lparr>nodes = [''A'', ''B''], edges = [(''A'', ''B''), (''B'', ''A'')]\<rparr>"
  by (simp add: example_cycle_AB_def build_graph_def mod_step_def truthy_list_def
      after_step_def before_step_def Mod_equals_def mk_Mod_def ignore_def add_edge_def
      add_node_def empty_DiGraph_def)

lemma example_cycle_CD_graph:
  "build_graph example_cycle_CD
     = \<lparr>nodes = [''C'', ''D''], edges = [(''C'', ''D''), (''D'', ''C'')]\<rparr>"
  by (simp add: example_cycle_CD_def build_graph_def mod_step_def truthy_list_def
      after_step_def before_step_def Mod_equals_def mk_Mod_def ignore_def add_edge_def
      add_node_def empty_DiGraph_def)

text \<open>
  C1. For every collection whose built dependency graph is acyclic, resolution succeeds
  and produces an ordering of the graph's nodes, each node once, such that for every
  edge \<open>u \<rightarrow> v\<close> of the graph \<open>u\<close> stands before \<open>v\<close> in the output.
\<close>

theorem resolution_topological_order:
  assumes "acyclic (set (edges (build_graph mods)))"
  shows "\<exists>order. Sort_graph mods = Inr order \<and> distinct order
           \<and> set order = set (nodes (build_graph mods))
           \<and> (\<forall>(u, v) \<in> set (edges (build_graph mods)).
                 \<exists>i j. i < j \<and> j < length order \<and> order ! i = u \<and> order ! j = v)"
  using topological_sort_cases [OF wf_build_graph, of mods] assms
  unfolding Sort_graph_def precedes_def by blast

theorem resolution_topological_order_witness:
  "acyclic (set (edges (build_graph example_tiebreak)))
   \<and> (\<exists>order. Sort_graph example_tiebreak = Inr order
      \<and> (\<exists>i j. i < j \<and> j < length order \<and> order ! i = ''C'' \<and> order ! j = ''A'')
      \<and> (\<exists>i j. i < j \<and> j < length order \<and> order ! i = ''B'' \<and> order ! j = ''A''))"
proof -
  have a: "acyclic (set (edges (build_graph example_tiebreak)))"
    by (simp add: example_tiebreak_graph acyclic_Nil rtrancl_insert)
  from resolution_topological_order [OF a] obtain order where
    o: "Sort_graph example_tiebreak = Inr order" and
    e: "\<forall>(u, v) \<in> set (edges (build_graph example_tiebreak)).
          \<exists>i j. i < j \<and> j < length order \<and> order ! i = u \<and> order ! j = v"
    by blast
  have m: "(''C'', ''A'') \<in> set (edges (build_graph example_tiebreak))"
    "(''B'', ''A'') \<in> set (edges (build_graph example_tiebreak))"
    by (simp_all add: example_tiebreak_graph)
  from bspec [OF e m(1)] bspec [OF e m(2)] o a show ?thesis
    by (simp only: prod.case) blast
qed

text \<open>
  C2, as the code has it. The claim that a cycle is reported by an error value carrying
  the package ids on the cycles fails: the collection \<open>{A before B, B before A}\<close> and the
  collection \<open>{C before D, D before C}\<close> end in the same exception, whose only content is
  the library's fixed message.
\<close>

theorem cycle_error_counterexample:
  "Sort_graph example_cycle_AB
     = Inl (NetworkXUnfeasible ''Graph contains a cycle or graph changed during iteration'')
   \<and> Sort_graph example_cycle_CD = Sort_graph example_cycle_AB"
  by (simp add: Sort_graph_def example_cycle_AB_graph example_cycle_CD_graph
      topological_sort_def topological_generations_def generations.simps in_degree_def
      cycle_or_changed_def)

text \<open>
  C2, amended. For every collection whose built graph is not acyclic, resolution fails
  with the exception \<open>NetworkXUnfeasible\<close> of the graph library, which carries the fixed
  message \<open>Graph contains a cycle or graph changed during iteration\<close> and no package id.
\<close>

theorem cycle_raises_unfeasible:
  assumes "\<not> acyclic (set (edges (build_graph mods)))"
  shows "Sort_graph mods
     = Inl (NetworkXUnfeasible ''Graph contains a cycle or graph changed during iteration'')"
  using topological_sort_cases [OF wf_build_graph, of mods] assms
  unfolding Sort_graph_def cycle_or_changed_def by blast

theorem cycle_raises_unfeasible_witness:
  "\<not> acyclic (set (edges (build_graph example_cycle_AB)))
   \<and> Sort_graph example_cycle_AB
     = Inl (NetworkXUnfeasible ''Graph contains a cycle or graph changed during iteration'')"
proof -
  have a: "\<not> acyclic (set (edges (build_graph example_cycle_AB)))"
    by (simp add: example_cycle_AB_graph acyclic_Nil rtrancl_insert)
  from cycle_raises_unfeasible [OF a] a show ?thesis by (rule conjI [rotated])
qed

text \<open>
  C3, as the code has it. The claim that the node chosen among those without unresolved
  predecessors is the earliest in the collection's insertion order fails: in the
  collection \<open>A\<close>, \<open>B\<close>, \<open>C\<close> with \<open>A\<close> after \<open>C\<close> and \<open>B\<close> before \<open>A\<close>, both \<open>B\<close> and \<open>C\<close> are
  nodes without predecessors, \<open>B\<close> is earlier in the collection, and \<open>C\<close> is output first.
\<close>

theorem tiebreak_counterexample:
  "map packageid example_tiebreak = [''A'', ''B'', ''C'']
   \<and> in_degree (build_graph example_tiebreak) ''B'' = 0
   \<and> in_degree (build_graph example_tiebreak) ''C'' = 0
   \<and> Sort_graph example_tiebreak = Inr [''C'', ''B'', ''A'']"
  by (simp add: example_tiebreak_sort example_tiebreak_graph in_degree_def)
     (simp add: example_tiebreak_def mk_Mod_def)

text \<open>
  C3, amended. Resolution is deterministic: the result is a function of the package ids
  and the before and after lists of the records, in collection order, so the same input
  gives the identical result. The tie-break is the graph's own order, not the
  collection's: an ordering starts with all nodes that have no predecessors, in the
  order in which they entered the graph (the order of the \<open>add_edge\<close> calls).
\<close>

theorem resolution_deterministic:
  "(map (\<lambda>m. (packageid m, before m, after m)) mods
      = map (\<lambda>m. (packageid m, before m, after m)) mods'
      \<longrightarrow> Sort_graph mods = Sort_graph mods')
   \<and> (Sort_graph mods = Inr order \<longrightarrow>
        (\<exists>rest. order = filter (\<lambda>v. in_degree (build_graph mods) v = 0)
                           (nodes (build_graph mods)) @ rest))"
  using build_graph_cong [of mods mods'] topological_sort_prefix [of "build_graph mods" order]
  by (auto simp: Sort_graph_def)

theorem resolution_deterministic_witness:
  "Sort_graph example_tiebreak = Sort_graph (map (\<lambda>m. m\<lparr>name := Some ''x''\<rparr>) example_tiebreak)
   \<and> Sort_graph example_tiebreak = Inr [''C'', ''B'', ''A'']
   \<and> (\<exists>rest. [''C'', ''B'', ''A'']
        = filter (\<lambda>v. in_degree (build_graph example_tiebreak) v = 0)
            (nodes (build_graph example_tiebreak)) @ rest)"
  using resolution_deterministic
    [of example_tiebreak "map (\<lambda>m. m\<lparr>name := Some ''x''\<rparr>) example_tiebreak"
        "[''C'', ''B'', ''A'']"]
  by (simp add: example_tiebreak_sort comp_def)

section \<open>Round trip of the V2 format\<close>









section \<open>Round trip of the V3 format\<close>






























section \<open>Round trip of the list formats\<close>




end
